theory Spec2Isabelle
  imports Main "HOL-Library.Multiset"
begin

section \<open>Outcomes of Go calls\<close>

text \<open>
  A Go call either returns, panics (which, outside a recover, ends the process) or parks
  its goroutine for ever. The three cases are the constructors of \<open>result\<close>.
\<close>

datatype 'a result = Return 'a | Panic | Hang

section \<open>Buffered channels\<close>

text \<open>
  The semaphore of \<^verbatim>\<open>handler.go\<close> is a buffered channel of empty structs:
  \<^verbatim>\<open>make(chan struct{}, cap)\<close>. A buffered channel is its capacity and the queue of
  the values it holds. The Go runtime panics in \<^verbatim>\<open>make\<close> when the size is negative.
\<close>

record 'a chan =
  cap :: nat
  buf :: "'a list"

definition make_chan :: "int \<Rightarrow> 'a chan result" where
  "make_chan n = (if n < 0 then Panic else Return \<lparr>cap = nat n, buf = []\<rparr>)"

text \<open>
  \<^verbatim>\<open>select { case c <- v: ...; default: ... }\<close>: the send is taken when the buffer has
  room, the default branch otherwise; the caller never waits.
\<close>

definition select_send :: "'a chan \<Rightarrow> 'a \<Rightarrow> bool \<times> 'a chan" where
  "select_send c v =
     (if length (buf c) < cap c then (True, c\<lparr>buf := buf c @ [v]\<rparr>) else (False, c))"

text \<open>
  \<^verbatim>\<open><-c\<close>: takes the oldest buffered value; on an empty buffer the caller is parked
  (\<open>None\<close>).
\<close>

definition recv :: "'a chan \<Rightarrow> ('a \<times> 'a chan) option" where
  "recv c = (case buf c of [] \<Rightarrow> None | v # vs \<Rightarrow> Some (v, c\<lparr>buf := vs\<rparr>))"

section \<open>The semaphore\<close>

record semaphore =
  ch :: "unit chan"

definition newSemaphore :: "int \<Rightarrow> semaphore result" where
  "newSemaphore n =
     (case make_chan n of
        Return c \<Rightarrow> Return \<lparr>ch = c\<rparr>
      | Panic \<Rightarrow> Panic
      | Hang \<Rightarrow> Hang)"

definition acquire :: "semaphore \<Rightarrow> bool \<times> semaphore" where
  "acquire s = (case select_send (ch s) () of (ok, c) \<Rightarrow> (ok, s\<lparr>ch := c\<rparr>))"

definition release :: "semaphore \<Rightarrow> semaphore option" where
  "release s = (case recv (ch s) of None \<Rightarrow> None | Some (_, c) \<Rightarrow> Some (s\<lparr>ch := c\<rparr>))"

text \<open>The slots in use are the values held by the channel; the capacity is the channel's.\<close>

definition in_use :: "semaphore \<Rightarrow> nat" where
  "in_use s = length (buf (ch s))"

definition capacity :: "semaphore \<Rightarrow> nat" where
  "capacity s = cap (ch s)"

text \<open>
  A sequence of calls made one after the other, as \<^verbatim>\<open>TestSemaphore\<close> makes them. The
  answers of the \<open>acquire\<close> calls are collected; a \<open>release\<close> that parks its caller ends the
  sequence with \<open>None\<close>.
\<close>

datatype gate_call = CallAcquire | CallRelease

fun gate_calls :: "gate_call list \<Rightarrow> semaphore \<Rightarrow> (bool list \<times> semaphore) option" where
  "gate_calls [] s = Some ([], s)"
| "gate_calls (CallAcquire # cs) s =
     (case acquire s of (ok, s') \<Rightarrow>
        (case gate_calls cs s' of None \<Rightarrow> None | Some (oks, s'') \<Rightarrow> Some (ok # oks, s'')))"
| "gate_calls (CallRelease # cs) s =
     (case release s of None \<Rightarrow> None | Some s' \<Rightarrow> gate_calls cs s')"

section \<open>Collaborators: streams, clients, loggers\<close>

text \<open>
  A body (\<^verbatim>\<open>io.Reader\<close>) is the bytes it delivers and the error, if any, that ends the
  reading. \<^verbatim>\<open>ioutil.ReadAll\<close> returns both, as in Go.
\<close>

datatype stream = Stream (content: string) (fault: "string option")

definition ReadAll :: "stream \<Rightarrow> string \<times> string option" where
  "ReadAll r = (content r, fault r)"

record response =
  StatusCode :: nat
  Body :: stream

text \<open>
  An \<^verbatim>\<open>http.Client\<close> is what its \<^verbatim>\<open>Get\<close> answers for a URL: an error (\<open>Inl\<close>) or a
  response. A \<^verbatim>\<open>log.Logger\<close> is the sink it prints to.
\<close>

record client =
  Get :: "string \<Rightarrow> string + response"

record logger =
  sink :: string

text \<open>The package variables \<^verbatim>\<open>defaultLogger\<close> and \<^verbatim>\<open>defaultClient\<close>; neither is nil.\<close>

record package =
  defaultLogger :: logger
  defaultClient :: client

definition defaultMaxIncomingRequests :: int where
  "defaultMaxIncomingRequests = 100"

section \<open>The handler and its options\<close>

text \<open>
  Modelled from the spec: the field \<open>maxRequests\<close>, which \<^verbatim>\<open>limitRequestsOption.apply\<close>
  assigns, is not declared by the \<^verbatim>\<open>Handler\<close> struct of \<^verbatim>\<open>handler.go\<close>; it is the
  admission capacity of the configuration, an \<^verbatim>\<open>int\<close>. The other three fields are the
  struct's. A nil pointer is \<open>None\<close>.
\<close>

record Handler =
  sem :: semaphore
  logger :: "logger option"
  client :: "client option"
  maxRequests :: int

datatype Option =
    clientOption "client option"
  | loggerOption "logger option"
  | limitRequestsOption int

definition WithClient :: "client option \<Rightarrow> Option" where
  "WithClient c = clientOption c"

definition WithLogger :: "logger option \<Rightarrow> Option" where
  "WithLogger l = loggerOption l"

definition LimitRequests :: "int \<Rightarrow> Option" where
  "LimitRequests limit = limitRequestsOption limit"

fun apply_option :: "Option \<Rightarrow> Handler \<Rightarrow> Handler" where
  "apply_option (clientOption c) h = h\<lparr>client := c\<rparr>"
| "apply_option (loggerOption l) h = h\<lparr>logger := l\<rparr>"
| "apply_option (limitRequestsOption limit) h = h\<lparr>maxRequests := limit\<rparr>"

text \<open>The \<^verbatim>\<open>for _, opt := range opts\<close> loop of \<^verbatim>\<open>NewHandler\<close>.\<close>

fun apply_options :: "Option list \<Rightarrow> Handler \<Rightarrow> Handler" where
  "apply_options [] h = h"
| "apply_options (opt # opts) h = apply_options opts (apply_option opt h)"

definition fill_defaults :: "package \<Rightarrow> Handler \<Rightarrow> Handler" where
  "fill_defaults pkg h =
     (let h1 = (if client h = None then h\<lparr>client := Some (defaultClient pkg)\<rparr> else h)
      in if logger h1 = None then h1\<lparr>logger := Some (defaultLogger pkg)\<rparr> else h1)"

text \<open>
  \<^verbatim>\<open>NewHandler\<close>: the struct literal sets \<open>sem\<close> only, the other fields start at their
  zero values; then the options are applied, then the nil client and logger are replaced.
\<close>

definition NewHandler :: "package \<Rightarrow> Option list \<Rightarrow> Handler result" where
  "NewHandler pkg opts =
     (case newSemaphore defaultMaxIncomingRequests of
        Return s \<Rightarrow>
          Return (fill_defaults pkg
            (apply_options opts \<lparr>sem = s, logger = None, client = None, maxRequests = 0\<rparr>))
      | Panic \<Rightarrow> Panic
      | Hang \<Rightarrow> Hang)"

text \<open>
  What an option list asks for, in the words of the documentation: the value given by the
  last option that sets the client (the logger), if there is one.
\<close>

fun client_setting :: "Option list \<Rightarrow> client option option" where
  "client_setting [] = None"
| "client_setting (clientOption c # opts) =
     (case client_setting opts of None \<Rightarrow> Some c | Some c' \<Rightarrow> Some c')"
| "client_setting (_ # opts) = client_setting opts"

fun logger_setting :: "Option list \<Rightarrow> logger option option" where
  "logger_setting [] = None"
| "logger_setting (loggerOption l # opts) =
     (case logger_setting opts of None \<Rightarrow> Some l | Some l' \<Rightarrow> Some l')"
| "logger_setting (_ # opts) = logger_setting opts"

section \<open>The fetch engine\<close>

text \<open>
  \<^verbatim>\<open>fetch\<close> starts one goroutine (the spawner) and returns an unbuffered channel. The
  spawner starts one goroutine per URL, waits for the wait group and closes the channel.
  The engine is modelled as the state of these goroutines and of the reader of the channel,
  with one transition for every statement that synchronises or has an effect.

  A task is its URL and the point it has reached in the body of the inner \<^verbatim>\<open>go func\<close>:
  \<^item> \<open>Start\<close>: before \<^verbatim>\<open>h.client.Get(url)\<close>;
  \<^item> \<open>GotResponse resp\<close>: before \<^verbatim>\<open>ioutil.ReadAll(resp.Body)\<close>;
  \<^item> \<open>Failed err\<close>: before \<^verbatim>\<open>h.logger.Println(err)\<close>;
  \<^item> \<open>Sending n\<close>: at \<^verbatim>\<open>ch <- len(content)\<close>;
  \<^item> \<open>Returning\<close>: the body is left, the deferred \<^verbatim>\<open>wg.Done()\<close> is pending;
  \<^item> \<open>Done\<close>: the goroutine has ended.
\<close>

datatype phase = Start | GotResponse response | Failed string | Sending nat | Returning | Done

text \<open>
  The spawner is in its \<^verbatim>\<open>for\<close> loop with the URLs still to launch (with none left it
  is at \<^verbatim>\<open>wg.Wait()\<close>), at \<^verbatim>\<open>close(ch)\<close>, or has ended.
\<close>

datatype spawner = Launching "string list" | Closing | Exited

text \<open>
  The reader of the channel is in a \<^verbatim>\<open>for ... range ch\<close> loop, has given up reading
  before the channel was closed, or has left the loop because the channel was closed.
\<close>

datatype consumer = Ranging | Abandoned | Finished

record engine =
  owner :: Handler
  spawner :: spawner
  tasks :: "(string \<times> phase) list"
  wg :: int
  closed :: bool
  consumer :: consumer
  received :: "nat list"
  printed :: "(logger \<times> string) list"
  crashed :: bool

definition fetch :: "Handler \<Rightarrow> string list \<Rightarrow> engine" where
  "fetch h urls =
     \<lparr>owner = h, spawner = Launching urls, tasks = [], wg = 0, closed = False,
      consumer = Ranging, received = [], printed = [], crashed = False\<rparr>"

definition set_phase :: "engine \<Rightarrow> nat \<Rightarrow> phase \<Rightarrow> engine" where
  "set_phase s i p = s\<lparr>tasks := (tasks s)[i := (fst (tasks s ! i), p)]\<rparr>"

definition crash :: "engine \<Rightarrow> engine" where
  "crash s = s\<lparr>crashed := True\<rparr>"

text \<open>
  The next states of task \<open>i\<close>. A nil client or logger is a nil dereference; a send on a
  closed channel and a negative wait-group counter are runtime panics. An unbuffered send
  completes only together with a receive, so it needs the reader in its loop.
\<close>

definition task_step :: "engine \<Rightarrow> nat \<Rightarrow> engine list" where
  "task_step s i =
     (case snd (tasks s ! i) of
        Start \<Rightarrow>
          (case client (owner s) of
             None \<Rightarrow> [crash s]
           | Some c \<Rightarrow>
               (case Get c (fst (tasks s ! i)) of
                  Inl err \<Rightarrow> [set_phase s i (Failed err)]
                | Inr resp \<Rightarrow> [set_phase s i (GotResponse resp)]))
      | GotResponse resp \<Rightarrow>
          (case ReadAll (Body resp) of
             (data, Some err) \<Rightarrow> [set_phase s i (Failed err)]
           | (data, None) \<Rightarrow> [set_phase s i (Sending (length data))])
      | Failed err \<Rightarrow>
          (case logger (owner s) of
             None \<Rightarrow> [crash s]
           | Some l \<Rightarrow> [set_phase (s\<lparr>printed := printed s @ [(l, err)]\<rparr>) i Returning])
      | Sending n \<Rightarrow>
          (if closed s then [crash s]
           else if consumer s = Ranging
             then [set_phase (s\<lparr>received := received s @ [n]\<rparr>) i Returning]
             else [])
      | Returning \<Rightarrow>
          (if wg s - 1 < 0 then [crash s] else [set_phase (s\<lparr>wg := wg s - 1\<rparr>) i Done])
      | Done \<Rightarrow> [])"

definition spawner_step :: "engine \<Rightarrow> engine list" where
  "spawner_step s =
     (case spawner s of
        Launching [] \<Rightarrow> (if wg s = 0 then [s\<lparr>spawner := Closing\<rparr>] else [])
      | Launching (u # us) \<Rightarrow>
          [s\<lparr>spawner := Launching us, wg := wg s + 1, tasks := tasks s @ [(u, Start)]\<rparr>]
      | Closing \<Rightarrow> (if closed s then [crash s] else [s\<lparr>closed := True, spawner := Exited\<rparr>])
      | Exited \<Rightarrow> [])"

definition consumer_step :: "engine \<Rightarrow> engine list" where
  "consumer_step s =
     (if consumer s = Ranging \<and> closed s then [s\<lparr>consumer := Finished\<rparr>] else [])"

text \<open>Every state the scheduler can move to in one transition; none after a panic.\<close>

definition succs :: "engine \<Rightarrow> engine list" where
  "succs s =
     (if crashed s then []
      else spawner_step s @ concat (map (task_step s) [0..<length (tasks s)])
             @ consumer_step s)"

inductive reach :: "engine \<Rightarrow> engine \<Rightarrow> bool" for s0 :: engine where
  reach_refl: "reach s0 s0"
| reach_step: "reach s0 s \<Longrightarrow> s' \<in> set (succs s) \<Longrightarrow> reach s0 s'"

text \<open>A bound on the transitions left, which every transition lowers.\<close>

fun phase_weight :: "phase \<Rightarrow> nat" where
  "phase_weight Start = 5"
| "phase_weight (GotResponse _) = 4"
| "phase_weight (Failed _) = 2"
| "phase_weight (Sending _) = 2"
| "phase_weight Returning = 1"
| "phase_weight Done = 0"

fun spawner_weight :: "spawner \<Rightarrow> nat" where
  "spawner_weight (Launching us) = 7 * length us + 2"
| "spawner_weight Closing = 1"
| "spawner_weight Exited = 0"

definition weight :: "engine \<Rightarrow> nat" where
  "weight s =
     (if crashed s then 0
      else 1 + spawner_weight (spawner s) + sum_list (map (\<lambda>t. phase_weight (snd t)) (tasks s))
             + (if consumer s = Ranging then 1 else 0))"

lemma weight_update:
  assumes "i < length ts" and "phase_weight p < phase_weight (snd (ts ! i))"
  shows "sum_list (map (\<lambda>t. phase_weight (snd t)) (ts[i := (u, p)]))
           < sum_list (map (\<lambda>t. phase_weight (snd t)) ts)"
  using assms
proof (induction ts arbitrary: i)
  case Nil
  then show ?case by simp
next
  case (Cons t ts)
  then show ?case by (cases i) auto
qed

lemma weight_set_phase:
  assumes "i < length (tasks s)" and "phase_weight p < phase_weight (snd (tasks s ! i))"
    and "\<not> crashed s" and "crashed s' = crashed s" and "spawner s' = spawner s"
    and "consumer s' = consumer s" and "tasks s' = tasks s"
  shows "weight (set_phase s' i p) < weight s"
  using assms weight_update [of i "tasks s" p "fst (tasks s ! i)"]
  by (simp add: weight_def set_phase_def)

lemma weight_crash: "\<not> crashed s \<Longrightarrow> weight (crash s) < weight s"
  by (simp add: weight_def crash_def)

lemma task_step_weight:
  assumes "s' \<in> set (task_step s i)" and "i < length (tasks s)" and "\<not> crashed s"
  shows "weight s' < weight s"
proof (cases "snd (tasks s ! i)")
  case Start
  with assms show ?thesis
    by (auto simp: task_step_def weight_crash weight_set_phase split: option.splits sum.splits)
next
  case (GotResponse resp)
  with assms show ?thesis
    by (auto simp: task_step_def weight_set_phase split: option.splits prod.splits)
next
  case (Failed err)
  with assms show ?thesis
    by (auto simp: task_step_def weight_crash weight_set_phase split: option.splits)
next
  case (Sending n)
  with assms show ?thesis
    by (auto simp: task_step_def weight_crash weight_set_phase split: if_splits)
next
  case Returning
  with assms show ?thesis
    by (auto simp: task_step_def weight_crash weight_set_phase split: if_splits)
next
  case Done
  with assms show ?thesis by (simp add: task_step_def)
qed

lemma spawner_step_weight:
  assumes "s' \<in> set (spawner_step s)" and "\<not> crashed s"
  shows "weight s' < weight s"
proof (cases "spawner s")
  case (Launching us)
  with assms show ?thesis
    by (cases us) (auto simp: spawner_step_def weight_def split: if_splits)
next
  case Closing
  with assms show ?thesis
    by (auto simp: spawner_step_def weight_def crash_def split: if_splits)
next
  case Exited
  with assms show ?thesis by (simp add: spawner_step_def)
qed

lemma consumer_step_weight:
  "s' \<in> set (consumer_step s) \<Longrightarrow> \<not> crashed s \<Longrightarrow> weight s' < weight s"
  by (auto simp: consumer_step_def weight_def split: if_splits)

lemma succs_weight: "s' \<in> set (succs s) \<Longrightarrow> weight s' < weight s"
  by (auto simp: succs_def task_step_weight spawner_step_weight consumer_step_weight
      split: if_splits)

text \<open>
  A run of the engine under a scheduler: at each state the scheduler's next number picks
  one of the possible transitions (the first one when the numbers are used up); the run
  ends in the first state that has none. Every execution of the engine is the run of some
  list of numbers.
\<close>

definition pick :: "nat list \<Rightarrow> 'a list \<Rightarrow> 'a" where
  "pick sched ss = ss ! ((case sched of [] \<Rightarrow> 0 | c # _ \<Rightarrow> c) mod length ss)"

function run :: "nat list \<Rightarrow> engine \<Rightarrow> engine" where
  "run sched s = (if succs s = [] then s else run (tl sched) (pick sched (succs s)))"
  by pat_completeness auto
termination
proof (relation "measure (\<lambda>(sched, s). weight s)")
  show "wf (measure (\<lambda>(sched, s). weight s))" by simp
next
  fix sched :: "nat list" and s :: engine
  assume ne: "succs s \<noteq> []"
  then have "pick sched (succs s) \<in> set (succs s)" by (simp add: pick_def)
  then show "((tl sched, pick sched (succs s)), (sched, s)) \<in> measure (\<lambda>(sched, s). weight s)"
    by (simp add: succs_weight)
qed

declare run.simps [simp del]

text \<open>The first \<open>k\<close> transitions of a run.\<close>

fun run_for :: "nat \<Rightarrow> nat list \<Rightarrow> engine \<Rightarrow> engine" where
  "run_for 0 sched s = s"
| "run_for (Suc k) sched s =
     (if succs s = [] then s else run_for k (tl sched) (pick sched (succs s)))"

section \<open>The inbound operation\<close>

text \<open>
  The request as \<^verbatim>\<open>ServeHTTP\<close> reads it: the method and the body. The response writer
  holds the status code once the header is written, the header map and the bytes written.
\<close>

record Request =
  Method :: string
  RequestBody :: stream

record ResponseWriter =
  status :: "nat option"
  header :: "(string \<times> string) list"
  written :: string

definition newline :: char where
  "newline = CHR 0x0A"

text \<open>
  \<^verbatim>\<open>WriteHeader\<close> sets the status code once; the first \<^verbatim>\<open>Write\<close> without one sets 200,
  and a response that ends with no code written is sent with 200.
\<close>

definition WriteHeader :: "nat \<Rightarrow> ResponseWriter \<Rightarrow> ResponseWriter" where
  "WriteHeader code w = (if status w = None then w\<lparr>status := Some code\<rparr> else w)"

definition Write :: "string \<Rightarrow> ResponseWriter \<Rightarrow> ResponseWriter" where
  "Write bytes w = (WriteHeader 200 w)\<lparr>written := written (WriteHeader 200 w) @ bytes\<rparr>"

definition response_status :: "ResponseWriter \<Rightarrow> nat" where
  "response_status w = (case status w of None \<Rightarrow> 200 | Some code \<Rightarrow> code)"

definition Header_Set :: "string \<Rightarrow> string \<Rightarrow> ResponseWriter \<Rightarrow> ResponseWriter" where
  "Header_Set k v w = w\<lparr>header := filter (\<lambda>kv. fst kv \<noteq> k) (header w) @ [(k, v)]\<rparr>"

definition Header_Add :: "string \<Rightarrow> string \<Rightarrow> ResponseWriter \<Rightarrow> ResponseWriter" where
  "Header_Add k v w = w\<lparr>header := header w @ [(k, v)]\<rparr>"

definition StatusMethodNotAllowed :: nat where "StatusMethodNotAllowed = 405"
definition StatusServiceUnavailable :: nat where "StatusServiceUnavailable = 503"
definition StatusBadRequest :: nat where "StatusBadRequest = 400"
definition StatusOK :: nat where "StatusOK = 200"

definition StatusText :: "nat \<Rightarrow> string" where
  "StatusText code =
     (if code = 405 then ''Method Not Allowed''
      else if code = 503 then ''Service Unavailable''
      else if code = 400 then ''Bad Request''
      else if code = 200 then ''OK''
      else [])"

text \<open>\<^verbatim>\<open>http.Error\<close>: two header fields, the status code, the message and a newline.\<close>

definition http_Error :: "ResponseWriter \<Rightarrow> string \<Rightarrow> nat \<Rightarrow> ResponseWriter" where
  "http_Error w msg code =
     Write (msg @ [newline])
       (WriteHeader code
          (Header_Set ''X-Content-Type-Options'' ''nosniff''
             (Header_Set ''Content-Type'' ''text/plain; charset=utf-8'' w)))"

text \<open>The decimal digits of a size, as \<^verbatim>\<open>fmt.Fprintln\<close> prints an \<^verbatim>\<open>int\<close> that is not negative.\<close>

definition digit :: "nat \<Rightarrow> char" where
  "digit d = ''0123456789'' ! d"

fun Itoa :: "nat \<Rightarrow> string" where
  "Itoa n = (if n < 10 then [digit n] else Itoa (n div 10) @ [digit (n mod 10)])"

declare Itoa.simps [simp del]

definition Fprintln :: "ResponseWriter \<Rightarrow> nat \<Rightarrow> ResponseWriter" where
  "Fprintln w n = Write (Itoa n @ [newline]) w"

text \<open>
  \<^verbatim>\<open>strings.Split(s, sep)\<close> for a separator of one byte, as in the only call, which
  passes the newline: the segments between the separators, one more than there are
  separators.
\<close>

fun Split :: "string \<Rightarrow> char \<Rightarrow> string list" where
  "Split [] sep = [[]]"
| "Split (x # xs) sep =
     (if x = sep then [] # Split xs sep
      else (case Split xs sep of [] \<Rightarrow> [[x]] | seg # segs \<Rightarrow> (x # seg) # segs))"

text \<open>
  What a call of \<^verbatim>\<open>ServeHTTP\<close> leaves behind besides the response: the lines printed by
  loggers, and the record of its calls to the gate and to the engine.
\<close>

datatype event = GateAcquire bool | GateRelease | EngineFetch "string list"

record effects =
  lines :: "(logger \<times> string) list"
  calls :: "event list"

text \<open>
  The part of \<^verbatim>\<open>ServeHTTP\<close> after \<^verbatim>\<open>defer h.sem.release()\<close>. The \<^verbatim>\<open>range\<close> loop over
  the channel of \<^verbatim>\<open>fetch\<close> prints each size it receives; it ends when the engine has
  closed the channel. A panic in a task ends the process; a run that stops with the loop
  still waiting never returns.
\<close>

definition serve_admitted ::
  "nat list \<Rightarrow> Handler \<Rightarrow> effects \<Rightarrow> ResponseWriter \<Rightarrow> Request
     \<Rightarrow> (Handler \<times> effects \<times> ResponseWriter) result" where
  "serve_admitted sched h fx writer request =
     (case ReadAll (RequestBody request) of
        (bytes, Some err) \<Rightarrow>
          Return (h, fx, http_Error writer (StatusText StatusBadRequest) StatusBadRequest)
      | (bytes, None) \<Rightarrow>
          (let urls = Split bytes newline;
               writer1 = Header_Add ''Content-Type'' ''text/plain'' writer;
               final = run sched (fetch h urls);
               fx1 = fx\<lparr>lines := lines fx @ printed final,
                        calls := calls fx @ [EngineFetch urls]\<rparr>
           in if crashed final then Panic
              else if consumer final = Finished
                then Return (h, fx1, foldl Fprintln writer1 (received final))
                else Hang))"

text \<open>
  \<^verbatim>\<open>ServeHTTP\<close>. The semaphore that \<open>h.sem\<close> points to is changed by the call, so the
  handler is returned with its new state. The deferred release runs when the guarded part
  returns.
\<close>

definition ServeHTTP ::
  "nat list \<Rightarrow> Handler \<Rightarrow> effects \<Rightarrow> ResponseWriter \<Rightarrow> Request
     \<Rightarrow> (Handler \<times> effects \<times> ResponseWriter) result" where
  "ServeHTTP sched h fx writer request =
     (if Method request \<noteq> ''POST''
      then Return (h, fx,
             http_Error writer (StatusText StatusMethodNotAllowed) StatusMethodNotAllowed)
      else
        (case acquire (sem h) of
           (False, g) \<Rightarrow>
             Return (h\<lparr>sem := g\<rparr>, fx\<lparr>calls := calls fx @ [GateAcquire False]\<rparr>,
               http_Error writer (StatusText StatusServiceUnavailable) StatusServiceUnavailable)
         | (True, g) \<Rightarrow>
             (case serve_admitted sched (h\<lparr>sem := g\<rparr>)
                     (fx\<lparr>calls := calls fx @ [GateAcquire True]\<rparr>) writer request of
                Return (h1, fx1, writer1) \<Rightarrow>
                  (case release (sem h1) of
                     None \<Rightarrow> Hang
                   | Some g1 \<Rightarrow>
                       Return (h1\<lparr>sem := g1\<rparr>, fx1\<lparr>calls := calls fx1 @ [GateRelease]\<rparr>,
                         writer1))
              | Panic \<Rightarrow> Panic
              | Hang \<Rightarrow> Hang)))"

section \<open>What a run of the engine should compute\<close>

text \<open>
  The result of the two calls a task makes for a URL: the error it logs, or the length it
  sends. \<open>sizes\<close> and \<open>failures\<close> list them for a batch, in the order of the URLs.
\<close>

definition outcome :: "client \<Rightarrow> string \<Rightarrow> string + nat" where
  "outcome c u =
     (case Get c u of
        Inl err \<Rightarrow> Inl err
      | Inr resp \<Rightarrow>
          (case ReadAll (Body resp) of
             (data, Some err) \<Rightarrow> Inl err
           | (data, None) \<Rightarrow> Inr (length data)))"

definition sizes :: "client \<Rightarrow> string list \<Rightarrow> nat list" where
  "sizes c urls = concat (map (\<lambda>u. case outcome c u of Inl _ \<Rightarrow> [] | Inr n \<Rightarrow> [n]) urls)"

definition failures :: "client \<Rightarrow> string list \<Rightarrow> string list" where
  "failures c urls = concat (map (\<lambda>u. case outcome c u of Inl err \<Rightarrow> [err] | Inr _ \<Rightarrow> []) urls)"

text \<open>
  The invariant of the engine for a batch \<open>urls\<close>. What a task holds agrees with what
  the client answers for its URL (\<open>phase_ok\<close>); a task is \<open>settled\<close> once it has left
  the body, and then it has sent its size (\<open>emitted\<close>) or printed its error (\<open>logged\<close>);
  the wait-group counter counts the tasks that have not ended (\<open>pending\<close>); the tasks
  launched and the URLs still to launch make up the batch; the channel is closed exactly
  when the spawner has ended, which needs the counter at zero.
\<close>

fun phase_ok :: "client \<Rightarrow> string \<Rightarrow> phase \<Rightarrow> bool" where
  "phase_ok c u (GotResponse resp) = (Get c u = Inr resp)"
| "phase_ok c u (Failed err) = (outcome c u = Inl err)"
| "phase_ok c u (Sending n) = (outcome c u = Inr n)"
| "phase_ok c u _ = True"

definition settled :: "phase \<Rightarrow> bool" where
  "settled p = (p = Returning \<or> p = Done)"

definition emitted :: "client \<Rightarrow> string \<times> phase \<Rightarrow> nat multiset" where
  "emitted c t =
     (if settled (snd t) then (case outcome c (fst t) of Inl _ \<Rightarrow> {#} | Inr n \<Rightarrow> {#n#}) else {#})"

definition logged :: "client \<Rightarrow> logger \<Rightarrow> string \<times> phase \<Rightarrow> (logger \<times> string) multiset" where
  "logged c l t =
     (if settled (snd t) then (case outcome c (fst t) of Inl err \<Rightarrow> {#(l, err)#} | Inr _ \<Rightarrow> {#})
      else {#})"

definition pending :: "string \<times> phase \<Rightarrow> int" where
  "pending t = (if snd t = Done then 0 else 1)"

definition to_launch :: "spawner \<Rightarrow> string list" where
  "to_launch sp = (case sp of Launching us \<Rightarrow> us | _ \<Rightarrow> [])"

definition launching :: "spawner \<Rightarrow> bool" where
  "launching sp = (case sp of Launching _ \<Rightarrow> True | _ \<Rightarrow> False)"

definition engine_inv :: "client \<Rightarrow> logger \<Rightarrow> string list \<Rightarrow> engine \<Rightarrow> bool" where
  "engine_inv c l urls s \<longleftrightarrow>
     client (owner s) = Some c \<and> logger (owner s) = Some l
     \<and> \<not> crashed s
     \<and> map fst (tasks s) @ to_launch (spawner s) = urls
     \<and> wg s = sum_list (map pending (tasks s))
     \<and> (\<not> launching (spawner s) \<longrightarrow> wg s = 0)
     \<and> (closed s \<longleftrightarrow> spawner s = Exited)
     \<and> (consumer s = Finished \<longrightarrow> closed s)
     \<and> (\<forall>t \<in> set (tasks s). phase_ok c (fst t) (snd t))
     \<and> mset (received s) = sum_list (map (emitted c) (tasks s))
     \<and> mset (printed s) = sum_list (map (logged c l) (tasks s))"


section \<open>Concrete inputs\<close>

text \<open>
  A client that answers three bytes for \<open>a\<close>, a body that breaks after two bytes for
  \<open>b\<close>, and an error for every other URL; a logger; a handler with a gate of capacity
  \<open>k\<close> and \<open>n\<close> slots taken; a response writer nothing was written to; no effects so
  far; a POST of the URL \<open>a\<close> followed by a newline.
\<close>

definition demo_client :: client where
  "demo_client =
     \<lparr>Get = (\<lambda>u. if u = ''a'' then Inr \<lparr>StatusCode = 200, Body = Stream ''xyz'' None\<rparr>
               else if u = ''b'' then Inr \<lparr>StatusCode = 200, Body = Stream ''pq'' (Some ''reset'')\<rparr>
               else Inl ''unsupported protocol scheme'')\<rparr>"

definition demo_logger :: logger where
  "demo_logger = \<lparr>sink = ''log''\<rparr>"

definition demo_handler :: "nat \<Rightarrow> nat \<Rightarrow> Handler" where
  "demo_handler k n =
     \<lparr>sem = \<lparr>ch = \<lparr>cap = k, buf = replicate n ()\<rparr>\<rparr>, logger = Some demo_logger,
      client = Some demo_client, maxRequests = 0\<rparr>"

definition fresh_writer :: ResponseWriter where
  "fresh_writer = \<lparr>status = None, header = [], written = []\<rparr>"

definition no_effects :: effects where
  "no_effects = \<lparr>lines = [], calls = []\<rparr>"

definition demo_request :: Request where
  "demo_request = \<lparr>Method = ''POST'', RequestBody = Stream (''a'' @ [newline]) None\<rparr>"

section \<open>The gate: basic facts\<close>

lemma newSemaphore_Return:
  "0 \<le> n \<Longrightarrow> newSemaphore n = Return \<lparr>ch = \<lparr>cap = nat n, buf = []\<rparr>\<rparr>"
  by (simp add: newSemaphore_def make_chan_def)

lemma newSemaphore_Panic: "n < 0 \<Longrightarrow> newSemaphore n = Panic"
  by (simp add: newSemaphore_def make_chan_def)

lemma acquire_free:
  "in_use s < capacity s \<Longrightarrow>
     fst (acquire s) \<and> in_use (snd (acquire s)) = Suc (in_use s)
       \<and> capacity (snd (acquire s)) = capacity s"
  by (simp add: acquire_def select_send_def in_use_def capacity_def)

lemma acquire_full:
  "capacity s \<le> in_use s \<Longrightarrow> acquire s = (False, s)"
  by (simp add: acquire_def select_send_def in_use_def capacity_def)

lemma acquire_bounded:
  "in_use s \<le> capacity s \<Longrightarrow>
     in_use (snd (acquire s)) \<le> capacity (snd (acquire s))
       \<and> capacity (snd (acquire s)) = capacity s"
  by (simp add: acquire_def select_send_def in_use_def capacity_def)

lemma release_held:
  "0 < in_use s \<Longrightarrow>
     \<exists>s'. release s = Some s' \<and> Suc (in_use s') = in_use s \<and> capacity s' = capacity s"
  by (cases "buf (ch s)") (simp_all add: release_def recv_def in_use_def capacity_def)

lemma release_empty: "in_use s = 0 \<Longrightarrow> release s = None"
  by (simp add: release_def recv_def in_use_def)

lemma release_Some:
  "release s = Some s' \<Longrightarrow> Suc (in_use s') = in_use s \<and> capacity s' = capacity s"
  by (cases "buf (ch s)") (auto simp: release_def recv_def in_use_def capacity_def)

lemma gate_calls_bounded:
  "gate_calls cs s = Some (oks, s') \<Longrightarrow> in_use s \<le> capacity s \<Longrightarrow>
     in_use s' \<le> capacity s' \<and> capacity s' = capacity s"
proof (induction cs s arbitrary: oks s' rule: gate_calls.induct)
  case (1 s)
  then show ?case by simp
next
  case (2 cs s)
  obtain ok t where a: "acquire s = (ok, t)" by (cases "acquire s")
  with "2.prems" obtain oks' where r: "gate_calls cs t = Some (oks', s')"
    by (auto split: option.splits)
  from a acquire_bounded [of s] "2.prems"(2)
  have t: "in_use t \<le> capacity t" "capacity t = capacity s" by simp_all
  from "2.IH" [OF a [symmetric] r t(1)] t(2) show ?case by simp
next
  case (3 cs s)
  from "3.prems" obtain t where rel: "release s = Some t" and r: "gate_calls cs t = Some (oks, s')"
    by (auto split: option.splits)
  from release_Some [OF rel] "3.prems"(2)
  have t: "in_use t \<le> capacity t" "capacity t = capacity s" by simp_all
  from "3.IH" [OF rel r t(1)] t(2) show ?case by simp
qed

lemma acquire_full_repeat:
  "capacity s \<le> in_use s \<Longrightarrow>
     gate_calls (replicate n CallAcquire) s = Some (replicate n False, s)"
  by (induction n) (simp_all add: acquire_full)

lemma gate_calls_zero:
  "gate_calls cs s = Some (oks, s') \<Longrightarrow> capacity s = 0 \<Longrightarrow> in_use s = 0 \<Longrightarrow>
     s' = s \<and> oks = replicate (length oks) False"
proof (induction cs s arbitrary: oks rule: gate_calls.induct)
  case (1 s)
  then show ?case by simp
next
  case (2 cs s)
  have a: "acquire s = (False, s)" using "2.prems" by (simp add: acquire_full)
  with "2.prems" obtain oks' where r: "gate_calls cs s = Some (oks', s')" and o: "oks = False # oks'"
    by (auto split: option.splits)
  from "2.IH" [OF a [symmetric] r "2.prems"(2,3)] o show ?case by simp
next
  case (3 cs s)
  then show ?case by (simp add: release_empty)
qed

section \<open>Claims about the admission gate\<close>

text \<open>
  C2. For a gate of capacity K and any sequence of acquire and release calls: acquire
  answers true and takes one more slot while fewer than K are in use, and answers false
  at once, changing nothing, when K are in use; so a gate made by \<open>newSemaphore\<close> never
  has more than K slots in use, whatever calls were made. After one release on a
  saturated gate, the next acquire answers true and every acquire after it answers false.
\<close>

theorem gate_capacity_invariant:
  "(in_use s < capacity s \<longrightarrow>
      fst (acquire s) \<and> in_use (snd (acquire s)) = Suc (in_use s)
        \<and> capacity (snd (acquire s)) = capacity s)
   \<and> (in_use s = capacity s \<longrightarrow> acquire s = (False, s))
   \<and> (0 \<le> k \<and> newSemaphore k = Return g \<and> gate_calls cs g = Some (oks, s') \<longrightarrow>
        capacity s' = nat k \<and> in_use s' \<le> nat k)
   \<and> (in_use s = capacity s \<and> 0 < capacity s \<longrightarrow>
        (\<exists>t. gate_calls (CallRelease # replicate (Suc n) CallAcquire) s
               = Some (True # replicate n False, t)
             \<and> in_use t = capacity s \<and> capacity t = capacity s))"
proof -
  have c1: "in_use s < capacity s \<longrightarrow>
      fst (acquire s) \<and> in_use (snd (acquire s)) = Suc (in_use s)
        \<and> capacity (snd (acquire s)) = capacity s"
    using acquire_free [of s] by blast
  have c2: "in_use s = capacity s \<longrightarrow> acquire s = (False, s)"
    by (simp add: acquire_full)
  have c3: "capacity s' = nat k \<and> in_use s' \<le> nat k"
    if h: "0 \<le> k \<and> newSemaphore k = Return g \<and> gate_calls cs g = Some (oks, s')"
  proof -
    from h have g: "g = \<lparr>ch = \<lparr>cap = nat k, buf = []\<rparr>\<rparr>"
      by (auto simp: newSemaphore_def make_chan_def)
    then have "in_use g \<le> capacity g" "capacity g = nat k"
      by (simp_all add: in_use_def capacity_def)
    with gate_calls_bounded [of cs g oks s'] h show ?thesis by simp
  qed
  have c4: "\<exists>t. gate_calls (CallRelease # replicate (Suc n) CallAcquire) s
               = Some (True # replicate n False, t)
             \<and> in_use t = capacity s \<and> capacity t = capacity s"
    if h: "in_use s = capacity s \<and> 0 < capacity s"
  proof -
    from h obtain r where r: "release s = Some r" "Suc (in_use r) = in_use s"
        "capacity r = capacity s"
      using release_held [of s] by auto
    obtain ok t where a: "acquire r = (ok, t)" by (cases "acquire r")
    from r h have free: "in_use r < capacity r" by simp
    from acquire_free [OF free] a r h
    have t: "ok" "in_use t = capacity s" "capacity t = capacity s" by simp_all
    then have "gate_calls (replicate n CallAcquire) t = Some (replicate n False, t)"
      by (simp add: acquire_full_repeat)
    with r a t show ?thesis by simp
  qed
  from c1 c2 c3 c4 show ?thesis by blast
qed

theorem gate_capacity_invariant_witness:
  "in_use \<lparr>ch = \<lparr>cap = 2, buf = [()]\<rparr>\<rparr> < capacity \<lparr>ch = \<lparr>cap = 2, buf = [()]\<rparr>\<rparr>
   \<and> acquire \<lparr>ch = \<lparr>cap = 2, buf = [()]\<rparr>\<rparr> = (True, \<lparr>ch = \<lparr>cap = 2, buf = [(), ()]\<rparr>\<rparr>)
   \<and> (0::int) \<le> 2
   \<and> newSemaphore 2 = Return \<lparr>ch = \<lparr>cap = 2, buf = []\<rparr>\<rparr>
   \<and> gate_calls [CallAcquire, CallAcquire, CallAcquire, CallRelease, CallAcquire]
        \<lparr>ch = \<lparr>cap = 2, buf = []\<rparr>\<rparr>
       = Some ([True, True, False, True], \<lparr>ch = \<lparr>cap = 2, buf = [(), ()]\<rparr>\<rparr>)
   \<and> in_use \<lparr>ch = \<lparr>cap = 2, buf = [(), ()]\<rparr>\<rparr> \<le> nat 2
   \<and> in_use \<lparr>ch = \<lparr>cap = 2, buf = [(), ()]\<rparr>\<rparr> = capacity \<lparr>ch = \<lparr>cap = 2, buf = [(), ()]\<rparr>\<rparr>
   \<and> 0 < capacity \<lparr>ch = \<lparr>cap = 2, buf = [(), ()]\<rparr>\<rparr>
   \<and> acquire \<lparr>ch = \<lparr>cap = 2, buf = [(), ()]\<rparr>\<rparr> = (False, \<lparr>ch = \<lparr>cap = 2, buf = [(), ()]\<rparr>\<rparr>)
   \<and> gate_calls [CallRelease, CallAcquire, CallAcquire, CallAcquire]
        \<lparr>ch = \<lparr>cap = 2, buf = [(), ()]\<rparr>\<rparr>
       = Some ([True, False, False], \<lparr>ch = \<lparr>cap = 2, buf = [(), ()]\<rparr>\<rparr>)"
  using gate_capacity_invariant
    [of "\<lparr>ch = \<lparr>cap = 2, buf = [()]\<rparr>\<rparr>" 2 "\<lparr>ch = \<lparr>cap = 2, buf = []\<rparr>\<rparr>"
        "[CallAcquire, CallAcquire, CallAcquire, CallRelease, CallAcquire]"
        "[True, True, False, True]" "\<lparr>ch = \<lparr>cap = 2, buf = [(), ()]\<rparr>\<rparr>" 0]
    gate_capacity_invariant
    [of "\<lparr>ch = \<lparr>cap = 2, buf = [(), ()]\<rparr>\<rparr>" 2 "\<lparr>ch = \<lparr>cap = 2, buf = []\<rparr>\<rparr>"
        "[]" "[]" "\<lparr>ch = \<lparr>cap = 2, buf = []\<rparr>\<rparr>" 2]
  by (simp add: newSemaphore_def make_chan_def acquire_def release_def select_send_def
      recv_def in_use_def capacity_def numeral_2_eq_2)

text \<open>
  C7. A gate built with capacity 0 answers false to every acquire, and each of these
  calls returns (the state is unchanged, nothing panics, nobody waits); building a gate
  with a negative capacity panics in the constructor.
\<close>

theorem gate_capacity_zero:
  "(\<exists>g. newSemaphore 0 = Return g \<and> capacity g = 0
        \<and> acquire g = (False, g)
        \<and> gate_calls (replicate n CallAcquire) g = Some (replicate n False, g)
        \<and> (gate_calls cs g = Some (oks, s') \<longrightarrow> s' = g \<and> oks = replicate (length oks) False))
   \<and> (k < 0 \<longrightarrow> newSemaphore k = Panic)"
proof -
  let ?g = "\<lparr>ch = \<lparr>cap = 0, buf = []\<rparr>\<rparr>"
  have g: "newSemaphore 0 = Return ?g" using newSemaphore_Return [of 0] by simp
  have z: "capacity ?g = 0" "in_use ?g = 0" by (simp_all add: capacity_def in_use_def)
  have a: "acquire ?g = (False, ?g)" using z by (simp add: acquire_full)
  have r: "gate_calls (replicate n CallAcquire) ?g = Some (replicate n False, ?g)"
    using z by (simp add: acquire_full_repeat)
  have c: "gate_calls cs ?g = Some (oks, s') \<longrightarrow> s' = ?g \<and> oks = replicate (length oks) False"
    using gate_calls_zero [of cs ?g oks s'] z by blast
  have p: "k < 0 \<longrightarrow> newSemaphore k = Panic" by (simp add: newSemaphore_Panic)
  from g z(1) a r c p show ?thesis by blast
qed

theorem gate_capacity_zero_witness:
  "newSemaphore 0 = Return \<lparr>ch = \<lparr>cap = 0, buf = []\<rparr>\<rparr>
   \<and> gate_calls [CallAcquire, CallAcquire, CallAcquire] \<lparr>ch = \<lparr>cap = 0, buf = []\<rparr>\<rparr>
       = Some ([False, False, False], \<lparr>ch = \<lparr>cap = 0, buf = []\<rparr>\<rparr>)
   \<and> (-1::int) < 0 \<and> newSemaphore (-1) = Panic"
  using gate_capacity_zero [of 3 "[CallAcquire, CallAcquire, CallAcquire]"
      "[False, False, False]" "\<lparr>ch = \<lparr>cap = 0, buf = []\<rparr>\<rparr>" "-1"]
  by (simp add: newSemaphore_def make_chan_def acquire_def select_send_def)

section \<open>Claims about the configuration\<close>

lemma apply_option_sem: "sem (apply_option opt h) = sem h"
  by (cases opt) simp_all

lemma apply_options_sem: "sem (apply_options opts h) = sem h"
  by (induction opts arbitrary: h) (simp_all add: apply_option_sem)

lemma apply_options_append:
  "apply_options (opts @ [opt]) h = apply_option opt (apply_options opts h)"
  by (induction opts arbitrary: h) simp_all

lemma apply_options_client:
  "client (apply_options opts h) = (case client_setting opts of None \<Rightarrow> client h | Some c \<Rightarrow> c)"
proof (induction opts arbitrary: h)
  case Nil
  then show ?case by simp
next
  case (Cons opt opts)
  then show ?case by (cases opt) (simp_all split: option.splits)
qed

lemma apply_options_logger:
  "logger (apply_options opts h) = (case logger_setting opts of None \<Rightarrow> logger h | Some l \<Rightarrow> l)"
proof (induction opts arbitrary: h)
  case Nil
  then show ?case by simp
next
  case (Cons opt opts)
  then show ?case by (cases opt) (simp_all split: option.splits)
qed

lemma client_setting_append: "client_setting (opts @ [clientOption c]) = Some c"
  by (induction opts rule: client_setting.induct) simp_all

lemma logger_setting_append: "logger_setting (opts @ [loggerOption l]) = Some l"
  by (induction opts rule: logger_setting.induct) simp_all

lemma NewHandler_Return:
  "NewHandler pkg opts =
     Return (fill_defaults pkg (apply_options opts
       \<lparr>sem = \<lparr>ch = \<lparr>cap = 100, buf = []\<rparr>\<rparr>, logger = None, client = None, maxRequests = 0\<rparr>))"
  by (simp add: NewHandler_def newSemaphore_def make_chan_def defaultMaxIncomingRequests_def)

lemma fill_defaults_fields:
  "sem (fill_defaults pkg h) = sem h"
  "maxRequests (fill_defaults pkg h) = maxRequests h"
  "client (fill_defaults pkg h) = Some (case client h of None \<Rightarrow> defaultClient pkg | Some c \<Rightarrow> c)"
  "logger (fill_defaults pkg h) = Some (case logger h of None \<Rightarrow> defaultLogger pkg | Some l \<Rightarrow> l)"
  by (auto simp: fill_defaults_def Let_def split: option.splits)

text \<open>
  C4. The claim is that \<open>LimitRequests L\<close> makes the capacity of the admission gate \<open>L\<close>.
  \<open>NewHandler\<close> builds the semaphore with \<open>defaultMaxIncomingRequests\<close> before it applies
  any option, and the option writes \<open>maxRequests\<close> only: with \<open>LimitRequests 5\<close> the gate
  still has capacity 100, as it has for every option list.
\<close>

theorem NewHandler_LimitRequests_capacity:
  "(\<exists>h. NewHandler pkg [LimitRequests 5] = Return h
        \<and> capacity (sem h) = 100 \<and> maxRequests h = 5)
   \<and> (\<exists>h. NewHandler pkg opts = Return h \<and> capacity (sem h) = 100 \<and> in_use (sem h) = 0)"
  by (simp add: NewHandler_Return fill_defaults_fields apply_options_sem LimitRequests_def
      capacity_def in_use_def)

text \<open>
  C10. \<open>NewHandler\<close> applies the options in the order of its arguments: the handler built
  from a list extended by one option is the one built from the list, with that option
  applied last. So the client and the logger of the handler are those of the last option
  that sets them, and the defaults replace them only where, after all options, the field is
  nil: when no option sets it, or when the last one holds nil.
\<close>

theorem NewHandler_last_option_wins:
  "(\<exists>h. NewHandler pkg opts = Return h
        \<and> client h = Some (case client_setting opts of Some (Some c) \<Rightarrow> c | _ \<Rightarrow> defaultClient pkg)
        \<and> logger h = Some (case logger_setting opts of Some (Some l) \<Rightarrow> l | _ \<Rightarrow> defaultLogger pkg))
   \<and> apply_options (opts @ [opt]) h0 = apply_option opt (apply_options opts h0)
   \<and> (\<exists>h. NewHandler pkg (opts @ [WithClient c]) = Return h
        \<and> client h = Some (case c of None \<Rightarrow> defaultClient pkg | Some x \<Rightarrow> x))
   \<and> (\<exists>h. NewHandler pkg (opts @ [WithLogger l]) = Return h
        \<and> logger h = Some (case l of None \<Rightarrow> defaultLogger pkg | Some x \<Rightarrow> x))"
proof -
  have a: "\<exists>h. NewHandler pkg os = Return h
        \<and> client h = Some (case client_setting os of Some (Some c) \<Rightarrow> c | _ \<Rightarrow> defaultClient pkg)
        \<and> logger h = Some (case logger_setting os of Some (Some l) \<Rightarrow> l | _ \<Rightarrow> defaultLogger pkg)"
    for os
    by (simp add: NewHandler_Return fill_defaults_fields apply_options_client
        apply_options_logger split: option.splits)
  have c: "\<exists>h. NewHandler pkg (opts @ [WithClient c]) = Return h
        \<and> client h = Some (case c of None \<Rightarrow> defaultClient pkg | Some x \<Rightarrow> x)"
    by (simp add: NewHandler_Return fill_defaults_fields apply_options_client
        WithClient_def client_setting_append)
  have l: "\<exists>h. NewHandler pkg (opts @ [WithLogger l]) = Return h
        \<and> logger h = Some (case l of None \<Rightarrow> defaultLogger pkg | Some x \<Rightarrow> x)"
    by (simp add: NewHandler_Return fill_defaults_fields apply_options_logger
        WithLogger_def logger_setting_append)
  from a [of opts] c l show ?thesis by (simp add: apply_options_append)
qed

section \<open>The fetch engine: the invariant of a run\<close>

lemma sum_list_map_update:
  fixes f :: "'a \<Rightarrow> 'b::comm_monoid_add"
  shows "i < length xs \<Longrightarrow>
    sum_list (map f (xs[i := y])) + f (xs ! i) = sum_list (map f xs) + f y"
proof (induction xs arbitrary: i)
  case Nil
  then show ?case by simp
next
  case (Cons x xs)
  show ?case
  proof (cases i)
    case 0
    then show ?thesis by (simp add: ac_simps)
  next
    case (Suc j)
    with Cons.prems have j: "j < length xs" by simp
    from Cons.IH [OF j] Suc show ?thesis
      by (simp add: ac_simps)
  qed
qed

lemma pending_nonneg: "0 \<le> sum_list (map pending ts)"
  by (induction ts) (simp_all add: pending_def)

lemma pending_zero: "sum_list (map pending ts) = 0 \<Longrightarrow> t \<in> set ts \<Longrightarrow> snd t = Done"
proof (induction ts)
  case Nil
  then show ?case by simp
next
  case (Cons a ts)
  have "0 \<le> pending a" by (simp add: pending_def)
  with Cons.prems(1) pending_nonneg [of ts]
  have "pending a = 0" "sum_list (map pending ts) = 0" by simp_all
  with Cons show ?case by (auto simp: pending_def split: if_splits)
qed

lemma pending_pos: "i < length ts \<Longrightarrow> snd (ts ! i) \<noteq> Done \<Longrightarrow> 1 \<le> sum_list (map pending ts)"
proof (induction ts arbitrary: i)
  case Nil
  then show ?case by simp
next
  case (Cons a ts)
  show ?case
  proof (cases i)
    case 0
    with Cons.prems have "pending a = 1" by (simp add: pending_def)
    with pending_nonneg [of ts] show ?thesis by simp
  next
    case (Suc j)
    with Cons have "1 \<le> sum_list (map pending ts)" by simp
    moreover have "0 \<le> pending a" by (simp add: pending_def)
    ultimately show ?thesis by simp
  qed
qed

lemma emitted_settled:
  "\<forall>t \<in> set ts. settled (snd t) \<Longrightarrow>
     sum_list (map (emitted c) ts) = mset (sizes c (map fst ts))"
  by (induction ts) (auto simp: emitted_def sizes_def split: sum.splits)

lemma logged_settled:
  "\<forall>t \<in> set ts. settled (snd t) \<Longrightarrow>
     sum_list (map (logged c l) ts) = mset (map (Pair l) (failures c (map fst ts)))"
  by (induction ts) (auto simp: logged_def failures_def split: sum.splits)

lemma sizes_failures_length:
  "length (sizes c urls) + length (failures c urls) = length urls"
  by (induction urls) (auto simp: sizes_def failures_def split: sum.splits)

lemma engine_inv_fetch:
  "client h = Some c \<Longrightarrow> logger h = Some l \<Longrightarrow> engine_inv c l urls (fetch h urls)"
  by (simp add: engine_inv_def fetch_def to_launch_def launching_def)

lemma engine_inv_spawner_step:
  assumes "engine_inv c l urls s" and "s' \<in> set (spawner_step s)"
  shows "engine_inv c l urls s'"
proof (cases "spawner s")
  case (Launching us)
  show ?thesis
  proof (cases us)
    case Nil
    with assms Launching show ?thesis
      by (auto simp: spawner_step_def engine_inv_def to_launch_def launching_def split: if_splits)
  next
    case (Cons u us')
    with assms Launching show ?thesis
      by (auto simp: spawner_step_def engine_inv_def to_launch_def launching_def pending_def
          emitted_def logged_def settled_def)
  qed
next
  case Closing
  with assms show ?thesis
    by (auto simp: spawner_step_def engine_inv_def to_launch_def launching_def split: if_splits)
next
  case Exited
  with assms show ?thesis by (simp add: spawner_step_def)
qed

lemma engine_inv_consumer_step:
  "engine_inv c l urls s \<Longrightarrow> s' \<in> set (consumer_step s) \<Longrightarrow> engine_inv c l urls s'"
  by (auto simp: consumer_step_def engine_inv_def split: if_splits)

lemma map_update_same: "(map f xs)[i := f (xs ! i)] = map f xs"
  using map_update [of f xs i "xs ! i"] by simp

lemma engine_inv_set_phase:
  assumes inv: "engine_inv c l urls s"
    and i: "i < length (tasks s)"
    and same: "owner s' = owner s" "spawner s' = spawner s" "closed s' = closed s"
      "consumer s' = consumer s" "crashed s' = crashed s" "tasks s' = tasks s"
    and la: "launching (spawner s)"
    and ok: "phase_ok c (fst (tasks s ! i)) p"
    and w: "wg s' + pending (tasks s ! i) = wg s + pending (fst (tasks s ! i), p)"
    and r: "mset (received s') + emitted c (tasks s ! i)
              = mset (received s) + emitted c (fst (tasks s ! i), p)"
    and pr: "mset (printed s') + logged c l (tasks s ! i)
              = mset (printed s) + logged c l (fst (tasks s ! i), p)"
  shows "engine_inv c l urls (set_phase s' i p)"
proof -
  let ?t = "(fst (tasks s ! i), p)"
  let ?ts = "(tasks s)[i := ?t]"
  have ts: "tasks (set_phase s' i p) = ?ts" by (simp add: set_phase_def same)
  have other: "owner (set_phase s' i p) = owner s" "spawner (set_phase s' i p) = spawner s"
    "closed (set_phase s' i p) = closed s" "consumer (set_phase s' i p) = consumer s"
    "crashed (set_phase s' i p) = crashed s" "wg (set_phase s' i p) = wg s'"
    "received (set_phase s' i p) = received s'" "printed (set_phase s' i p) = printed s'"
    by (simp_all add: set_phase_def same)
  have m: "map fst ?ts = map fst (tasks s)" by (simp add: map_update map_update_same)
  have w': "wg s' = sum_list (map pending ?ts)"
    using sum_list_map_update [OF i, of pending ?t] w inv by (simp add: engine_inv_def)
  have r': "mset (received s') = sum_list (map (emitted c) ?ts)"
    using sum_list_map_update [OF i, of "emitted c" ?t] r inv
    by (simp add: engine_inv_def) (metis add_right_cancel)
  have p': "mset (printed s') = sum_list (map (logged c l) ?ts)"
    using sum_list_map_update [OF i, of "logged c l" ?t] pr inv
    by (simp add: engine_inv_def) (metis add_right_cancel)
  have ok': "\<forall>t \<in> set ?ts. phase_ok c (fst t) (snd t)"
  proof
    fix t assume "t \<in> set ?ts"
    then have "t = ?t \<or> t \<in> set (tasks s)"
      using set_update_subset_insert [of "tasks s" i ?t] by auto
    with ok inv show "phase_ok c (fst t) (snd t)" by (auto simp: engine_inv_def)
  qed
  from inv la w' r' p' ok' show ?thesis
    unfolding engine_inv_def ts other m by auto
qed

lemma engine_inv_task_step:
  assumes inv: "engine_inv c l urls s" and i: "i < length (tasks s)"
    and st: "s' \<in> set (task_step s i)"
  shows "engine_inv c l urls s'"
proof -
  obtain u p where t: "tasks s ! i = (u, p)" by (cases "tasks s ! i")
  from st t have nd: "p \<noteq> Done" by (auto simp: task_step_def)
  with i t have pos: "1 \<le> wg s"
    using pending_pos [of i "tasks s"] inv by (simp add: engine_inv_def)
  with inv have la: "launching (spawner s)" by (auto simp: engine_inv_def)
  with inv have nc: "\<not> closed s" by (auto simp: engine_inv_def launching_def)
  from inv i t have ok: "phase_ok c u p" by (auto simp: engine_inv_def dest!: nth_mem)
  from inv have cl: "client (owner s) = Some c" "logger (owner s) = Some l"
    by (simp_all add: engine_inv_def)
  note sp = engine_inv_set_phase [OF inv i _ _ _ _ _ _ la]
  note defs = pending_def emitted_def logged_def settled_def
  show ?thesis
  proof (cases p)
    case Start
    show ?thesis
    proof (cases "Get c u")
      case (Inl err)
      with st t cl Start have s': "s' = set_phase s i (Failed err)"
        by (simp add: task_step_def)
      show ?thesis unfolding s'
        by (rule sp) (simp_all add: t Start Inl outcome_def defs)
    next
      case (Inr resp)
      with st t cl Start have s': "s' = set_phase s i (GotResponse resp)"
        by (simp add: task_step_def)
      show ?thesis unfolding s'
        by (rule sp) (simp_all add: t Start Inr defs)
    qed
  next
    case (GotResponse resp)
    with ok have g: "Get c u = Inr resp" by simp
    obtain data e where ra: "ReadAll (Body resp) = (data, e)" by (cases "ReadAll (Body resp)")
    show ?thesis
    proof (cases e)
      case None
      with st t GotResponse ra have s': "s' = set_phase s i (Sending (length data))"
        by (simp add: task_step_def)
      show ?thesis unfolding s'
        by (rule sp) (simp_all add: t GotResponse g ra None outcome_def defs)
    next
      case (Some err)
      with st t GotResponse ra have s': "s' = set_phase s i (Failed err)"
        by (simp add: task_step_def)
      show ?thesis unfolding s'
        by (rule sp) (simp_all add: t GotResponse g ra Some outcome_def defs)
    qed
  next
    case (Failed err)
    with ok have o: "outcome c u = Inl err" by simp
    from st t cl Failed
    have s': "s' = set_phase (s\<lparr>printed := printed s @ [(l, err)]\<rparr>) i Returning"
      by (simp add: task_step_def)
    show ?thesis unfolding s'
      by (rule sp) (simp_all add: t Failed o defs)
  next
    case (Sending n)
    with ok have o: "outcome c u = Inr n" by simp
    from st t nc Sending
    have s': "s' = set_phase (s\<lparr>received := received s @ [n]\<rparr>) i Returning"
      by (simp add: task_step_def split: if_splits)
    show ?thesis unfolding s'
      by (rule sp) (simp_all add: t Sending o defs)
  next
    case Returning
    with st t pos have s': "s' = set_phase (s\<lparr>wg := wg s - 1\<rparr>) i Done"
      by (simp add: task_step_def)
    show ?thesis unfolding s'
      by (rule sp) (simp_all add: t Returning defs)
  next
    case Done
    with nd show ?thesis by simp
  qed
qed

lemma succs_iff:
  "s' \<in> set (succs s) \<longleftrightarrow>
     \<not> crashed s \<and>
     (s' \<in> set (spawner_step s) \<or> (\<exists>i<length (tasks s). s' \<in> set (task_step s i))
        \<or> s' \<in> set (consumer_step s))"
  by (auto simp: succs_def)

lemma engine_inv_succs:
  assumes "engine_inv c l urls s" and "s' \<in> set (succs s)"
  shows "engine_inv c l urls s'"
  using assms engine_inv_spawner_step engine_inv_consumer_step engine_inv_task_step
  unfolding succs_iff by blast

lemma engine_inv_reach:
  "reach s0 s \<Longrightarrow> engine_inv c l urls s0 \<Longrightarrow> engine_inv c l urls s"
  by (induction rule: reach.induct) (auto intro: engine_inv_succs)

lemma engine_inv_run: "engine_inv c l urls s \<Longrightarrow> engine_inv c l urls (run sched s)"
proof (induction sched s rule: run.induct)
  case (1 sched s)
  show ?case
  proof (cases "succs s = []")
    case True
    with "1.prems" show ?thesis by (simp add: run.simps [of sched s])
  next
    case False
    then have "pick sched (succs s) \<in> set (succs s)" by (simp add: pick_def)
    with "1.prems" have "engine_inv c l urls (pick sched (succs s))"
      using engine_inv_succs by blast
    with "1.IH" [OF False] False show ?thesis by (simp add: run.simps [of sched s])
  qed
qed

lemma run_stuck: "succs (run sched s) = []"
proof (induction sched s rule: run.induct)
  case (1 sched s)
  then show ?case by (cases "succs s = []") (simp_all add: run.simps [of sched s])
qed

lemma reach_trans: "reach a b \<Longrightarrow> reach s a \<Longrightarrow> reach s b"
  by (induction rule: reach.induct) (auto intro: reach_step)

lemma reach_run: "reach s (run sched s)"
proof (induction sched s rule: run.induct)
  case (1 sched s)
  show ?case
  proof (cases "succs s = []")
    case True
    then show ?thesis by (simp add: reach_refl run.simps [of sched s])
  next
    case False
    then have m: "pick sched (succs s) \<in> set (succs s)" by (simp add: pick_def)
    from reach_trans [OF "1.IH" [OF False] reach_step [OF reach_refl m]] False
    show ?thesis by (simp add: run.simps [of sched s])
  qed
qed

lemma succs_Nil_iff:
  "succs s = [] \<longleftrightarrow>
     crashed s \<or>
     (spawner_step s = [] \<and> (\<forall>i<length (tasks s). task_step s i = []) \<and> consumer_step s = [])"
  by (auto simp: succs_def)

lemma task_step_Nil:
  assumes "task_step s i = []" and "client (owner s) = Some c" and "logger (owner s) = Some l"
  shows "snd (tasks s ! i) = Done
     \<or> (\<exists>n. snd (tasks s ! i) = Sending n \<and> \<not> closed s \<and> consumer s \<noteq> Ranging)"
  using assms
  by (cases "snd (tasks s ! i)")
     (auto simp: task_step_def split: sum.splits prod.splits option.splits if_splits)

lemma spawner_step_Nil:
  "spawner_step s = [] \<Longrightarrow> (spawner s = Launching [] \<and> wg s \<noteq> 0) \<or> spawner s = Exited"
  by (cases "spawner s")
     (auto simp: spawner_step_def split: list.splits if_splits)

lemma stuck_tasks:
  assumes inv: "engine_inv c l urls s" and stuck: "succs s = []"
  shows "\<forall>t \<in> set (tasks s). snd t = Done \<or> (\<exists>n. snd t = Sending n \<and> consumer s \<noteq> Ranging)"
proof
  fix t assume "t \<in> set (tasks s)"
  then obtain i where i: "i < length (tasks s)" "tasks s ! i = t" by (auto simp: in_set_conv_nth)
  from inv stuck i(1) have "task_step s i = []" by (simp add: succs_Nil_iff engine_inv_def)
  with inv task_step_Nil [of s i c l] i(2)
  show "snd t = Done \<or> (\<exists>n. snd t = Sending n \<and> consumer s \<noteq> Ranging)"
    by (auto simp: engine_inv_def)
qed

lemma all_Done_wg:
  "\<forall>t \<in> set ts. snd t = Done \<Longrightarrow> sum_list (map pending ts) = 0"
  by (induction ts) (simp_all add: pending_def)

lemma stuck_launched:
  assumes inv: "engine_inv c l urls s" and stuck: "succs s = []"
  shows "map fst (tasks s) = urls"
proof -
  from inv stuck have "spawner_step s = []" by (simp add: succs_Nil_iff engine_inv_def)
  then have "to_launch (spawner s) = []"
    using spawner_step_Nil [of s] by (auto simp: to_launch_def)
  with inv show ?thesis by (simp add: engine_inv_def)
qed

lemma stuck_closed:
  assumes inv: "engine_inv c l urls s" and stuck: "succs s = []"
  shows "closed s \<longleftrightarrow> (\<forall>t \<in> set (tasks s). snd t = Done)"
proof
  assume "closed s"
  with inv have "wg s = 0" "wg s = sum_list (map pending (tasks s))"
    by (auto simp: engine_inv_def launching_def)
  then show "\<forall>t \<in> set (tasks s). snd t = Done" using pending_zero by auto
next
  assume "\<forall>t \<in> set (tasks s). snd t = Done"
  with inv have "wg s = 0" by (simp add: engine_inv_def all_Done_wg)
  moreover from inv stuck have "spawner_step s = []" by (simp add: succs_Nil_iff engine_inv_def)
  ultimately have "spawner s = Exited" using spawner_step_Nil [of s] by auto
  with inv show "closed s" by (simp add: engine_inv_def)
qed

lemma stuck_Ranging:
  assumes inv: "engine_inv c l urls s" and stuck: "succs s = []"
  shows "consumer s \<noteq> Ranging"
proof
  assume r: "consumer s = Ranging"
  with stuck_tasks [OF inv stuck] have "\<forall>t \<in> set (tasks s). snd t = Done" by auto
  with stuck_closed [OF inv stuck] have "closed s" by simp
  with r have "consumer_step s \<noteq> []" by (simp add: consumer_step_def)
  with inv stuck show False by (simp add: succs_Nil_iff engine_inv_def)
qed

lemma set_phase_fields:
  "owner (set_phase s i p) = owner s" "consumer (set_phase s i p) = consumer s"
  "owner (crash s) = owner s" "consumer (crash s) = consumer s"
  by (simp_all add: set_phase_def crash_def)

lemma consumer_task_step:
  assumes "s' \<in> set (task_step s i)"
  shows "owner s' = owner s \<and> consumer s' = consumer s"
proof (cases "snd (tasks s ! i)")
  case Start
  with assms show ?thesis
    by (auto simp: task_step_def set_phase_fields split: sum.splits option.splits)
next
  case (GotResponse resp)
  with assms show ?thesis
    by (auto simp: task_step_def set_phase_fields split: prod.splits option.splits)
next
  case (Failed err)
  with assms show ?thesis
    by (auto simp: task_step_def set_phase_fields split: option.splits)
next
  case (Sending n)
  with assms show ?thesis
    by (auto simp: task_step_def set_phase_fields split: if_splits)
next
  case Returning
  with assms show ?thesis
    by (auto simp: task_step_def set_phase_fields split: if_splits)
next
  case Done
  with assms show ?thesis by (simp add: task_step_def)
qed

lemma consumer_spawner_step:
  assumes "s' \<in> set (spawner_step s)"
  shows "owner s' = owner s \<and> consumer s' = consumer s"
proof (cases "spawner s")
  case (Launching us)
  with assms show ?thesis
    by (cases us) (auto simp: spawner_step_def split: if_splits)
next
  case Closing
  with assms show ?thesis
    by (auto simp: spawner_step_def set_phase_fields split: if_splits)
next
  case Exited
  with assms show ?thesis by (simp add: spawner_step_def)
qed

lemma consumer_succs:
  assumes "s' \<in> set (succs s)"
  shows "owner s' = owner s \<and> (consumer s' = Abandoned \<longleftrightarrow> consumer s = Abandoned)"
proof -
  from assms consider "s' \<in> set (spawner_step s)"
    | i where "s' \<in> set (task_step s i)"
    | "s' \<in> set (consumer_step s)"
    unfolding succs_iff by blast
  then show ?thesis
  proof cases
    case 1
    then show ?thesis using consumer_spawner_step by simp
  next
    case 2
    then show ?thesis using consumer_task_step by simp
  next
    case 3
    then show ?thesis by (auto simp: consumer_step_def split: if_splits)
  qed
qed

lemma consumer_reach:
  "reach s0 s \<Longrightarrow> owner s = owner s0 \<and> (consumer s = Abandoned \<longleftrightarrow> consumer s0 = Abandoned)"
proof (induction rule: reach.induct)
  case reach_refl
  show ?case by simp
next
  case (reach_step s s')
  from consumer_succs [OF reach_step.hyps(2)] reach_step.IH show ?case by simp
qed

text \<open>The end of a run whose reader keeps reading.\<close>

lemma run_drained:
  fixes sched :: "nat list" and urls :: "string list"
  assumes c: "client h = Some c" and l: "logger h = Some l"
  defines "f \<equiv> run sched (fetch h urls)"
  shows "\<not> crashed f" and "consumer f = Finished" and "closed f"
    and "map fst (tasks f) = urls" and "\<forall>t \<in> set (tasks f). snd t = Done"
    and "mset (received f) = mset (sizes c urls)"
    and "mset (printed f) = mset (map (Pair l) (failures c urls))"
proof -
  have inv: "engine_inv c l urls f"
    unfolding f_def by (rule engine_inv_run) (rule engine_inv_fetch [OF c l])
  have stuck: "succs f = []" unfolding f_def by (rule run_stuck)
  from inv show "\<not> crashed f" by (simp add: engine_inv_def)
  have "consumer f \<noteq> Abandoned"
    using consumer_reach [OF reach_run, of sched "fetch h urls"]
    by (simp add: f_def fetch_def)
  with stuck_Ranging [OF inv stuck] show fin: "consumer f = Finished"
    by (cases "consumer f") simp_all
  with inv show cl: "closed f" by (auto simp: engine_inv_def)
  show m: "map fst (tasks f) = urls" by (rule stuck_launched [OF inv stuck])
  from cl stuck_closed [OF inv stuck] show d: "\<forall>t \<in> set (tasks f). snd t = Done" by simp
  then have se: "\<forall>t \<in> set (tasks f). settled (snd t)" by (simp add: settled_def)
  from inv emitted_settled [OF se, of c] m show "mset (received f) = mset (sizes c urls)"
    by (simp add: engine_inv_def)
  from inv logged_settled [OF se, of c l] m
  show "mset (printed f) = mset (map (Pair l) (failures c urls))"
    by (simp add: engine_inv_def)
qed

section \<open>Claims about the fetch engine\<close>

lemma engine_inv_closed:
  assumes "engine_inv c l urls s" and "closed s"
  shows "map fst (tasks s) = urls \<and> (\<forall>t \<in> set (tasks s). snd t = Done)"
proof -
  from assms have e: "spawner s = Exited" by (auto simp: engine_inv_def)
  with assms have "wg s = 0" "wg s = sum_list (map pending (tasks s))"
    by (auto simp: engine_inv_def launching_def)
  then have "\<forall>t \<in> set (tasks s). snd t = Done" using pending_zero by auto
  moreover from assms e have "map fst (tasks s) = urls"
    by (auto simp: engine_inv_def to_launch_def)
  ultimately show ?thesis by simp
qed

lemma engine_inv_prefix:
  assumes "engine_inv c l urls s"
  shows "map fst (tasks s) = take (length (tasks s)) urls"
proof -
  from assms have "map fst (tasks s) @ to_launch (spawner s) = urls"
    by (simp add: engine_inv_def)
  then have "take (length (map fst (tasks s))) urls = map fst (tasks s)"
    by (metis append_eq_conv_conj)
  then show ?thesis by simp
qed

text \<open>
  C1. For a batch of N URLs handled by a handler with a client and a logger, and a reader
  that keeps reading: in every state the engine can reach, the tasks launched are one per
  URL for a prefix of the input list, in its order (duplicates and empty strings
  included), nothing has panicked, and the channel is closed only when all N tasks are
  launched and ended. Under every scheduler the run ends (the function \<open>run\<close> is total)
  with the channel closed, the reader out of its loop, the N tasks ended, and the received
  values being, as a multiset, the sizes of the URLs whose fetch succeeds. For the empty
  list the channel is closed and nothing is received. Whatever the scheduler does, a
  reachable state with no transition left is such an end (nothing is ever stuck before),
  and every transition lowers \<open>weight\<close>, so no execution goes on for ever.
\<close>

theorem fetch_fan_out_complete:
  assumes "client h = Some c" and "logger h = Some l"
  shows "(reach (fetch h urls) s \<longrightarrow>
            \<not> crashed s \<and> map fst (tasks s) = take (length (tasks s)) urls
            \<and> (closed s \<longrightarrow> map fst (tasks s) = urls \<and> (\<forall>t \<in> set (tasks s). snd t = Done)))
       \<and> (\<not> crashed (run sched (fetch h urls)) \<and> closed (run sched (fetch h urls))
            \<and> consumer (run sched (fetch h urls)) = Finished
            \<and> map fst (tasks (run sched (fetch h urls))) = urls
            \<and> (\<forall>t \<in> set (tasks (run sched (fetch h urls))). snd t = Done)
            \<and> mset (received (run sched (fetch h urls))) = mset (sizes c urls))
       \<and> (closed (run sched (fetch h [])) \<and> received (run sched (fetch h [])) = [])
       \<and> (reach (fetch h urls) s \<and> succs s = [] \<longrightarrow>
            closed s \<and> consumer s = Finished \<and> mset (received s) = mset (sizes c urls))
       \<and> (s' \<in> set (succs s) \<longrightarrow> weight s' < weight s)"
proof -
  have b: "closed s \<and> consumer s = Finished \<and> mset (received s) = mset (sizes c urls)"
    if h: "reach (fetch h urls) s \<and> succs s = []"
  proof -
    from h have r: "reach (fetch h urls) s" and stuck: "succs s = []" by simp_all
    have inv: "engine_inv c l urls s"
      by (rule engine_inv_reach [OF r]) (rule engine_inv_fetch [OF assms])
    have "consumer s \<noteq> Abandoned"
      using consumer_reach [OF r] by (simp add: fetch_def)
    with stuck_Ranging [OF inv stuck] have fin: "consumer s = Finished"
      by (cases "consumer s") simp_all
    with inv have cl: "closed s" by (auto simp: engine_inv_def)
    with stuck_closed [OF inv stuck] have "\<forall>t \<in> set (tasks s). settled (snd t)"
      by (simp add: settled_def)
    from emitted_settled [OF this, of c] inv stuck_launched [OF inv stuck]
    have "mset (received s) = mset (sizes c urls)" by (simp add: engine_inv_def)
    with cl fin show ?thesis by simp
  qed
  have w: "s' \<in> set (succs s) \<longrightarrow> weight s' < weight s"
    by (simp add: succs_weight)
  have a: "\<not> crashed s \<and> map fst (tasks s) = take (length (tasks s)) urls
            \<and> (closed s \<longrightarrow> map fst (tasks s) = urls \<and> (\<forall>t \<in> set (tasks s). snd t = Done))"
    if r: "reach (fetch h urls) s"
  proof -
    have inv: "engine_inv c l urls s"
      by (rule engine_inv_reach [OF r]) (rule engine_inv_fetch [OF assms])
    from inv have "\<not> crashed s" by (simp add: engine_inv_def)
    with engine_inv_prefix [OF inv] engine_inv_closed [OF inv] show ?thesis by blast
  qed
  note d = run_drained [OF assms]
  have e: "received (run sched (fetch h [])) = []"
    using d(6) [of sched "[]"] by (simp add: sizes_def)
  from a b w d(1-6) [of sched urls] d(3) [of sched "[]"] e show ?thesis by blast
qed

theorem fetch_fan_out_complete_witness:
  "client (demo_handler 1 0) = Some demo_client \<and> logger (demo_handler 1 0) = Some demo_logger
   \<and> reach (fetch (demo_handler 1 0) [''a'', '''', ''b'', ''a''])
        (run [2, 0, 1] (fetch (demo_handler 1 0) [''a'', '''', ''b'', ''a'']))
   \<and> succs (run [2, 0, 1] (fetch (demo_handler 1 0) [''a'', '''', ''b'', ''a''])) = []
   \<and> closed (run [2, 0, 1] (fetch (demo_handler 1 0) [''a'', '''', ''b'', ''a'']))
   \<and> consumer (run [2, 0, 1] (fetch (demo_handler 1 0) [''a'', '''', ''b'', ''a''])) = Finished
   \<and> map fst (tasks (run [2, 0, 1] (fetch (demo_handler 1 0) [''a'', '''', ''b'', ''a''])))
        = [''a'', '''', ''b'', ''a'']
   \<and> mset (received (run [2, 0, 1] (fetch (demo_handler 1 0) [''a'', '''', ''b'', ''a'']))) = {#3, 3#}
   \<and> run_for 1 [] (fetch (demo_handler 1 0) [''a'']) \<in> set (succs (fetch (demo_handler 1 0) [''a'']))
   \<and> weight (run_for 1 [] (fetch (demo_handler 1 0) [''a''])) < weight (fetch (demo_handler 1 0) [''a''])"
proof -
  let ?us = "[''a'', '''', ''b'', ''a'']"
  let ?f = "run [2, 0, 1] (fetch (demo_handler 1 0) ?us)"
  let ?i = "fetch (demo_handler 1 0) [''a'']"
  have c: "client (demo_handler 1 0) = Some demo_client"
    and l: "logger (demo_handler 1 0) = Some demo_logger"
    by (simp_all add: demo_handler_def)
  have sz: "mset (sizes demo_client ?us) = {#3, 3#}"
    by (simp add: sizes_def outcome_def demo_client_def ReadAll_def numeral_3_eq_3)
  have r: "reach (fetch (demo_handler 1 0) ?us) ?f"
    by (rule reach_run)
  have st: "succs ?f = []" by (rule run_stuck)
  from fetch_fan_out_complete [OF c l, where urls = ?us and s = ?f and sched = "[2, 0, 1]"] r st
  have p: "closed ?f" "consumer ?f = Finished" "map fst (tasks ?f) = ?us"
    "mset (received ?f) = mset (sizes demo_client ?us)"
    by blast+
  from p(4) sz have m: "mset (received ?f) = {#3, 3#}" by simp
  have n: "run_for 1 [] ?i \<in> set (succs ?i)"
    by (simp add: succs_def spawner_step_def fetch_def pick_def consumer_step_def)
  with fetch_fan_out_complete [OF c l, where s = ?i and s' = "run_for 1 [] ?i"]
  have w: "weight (run_for 1 [] ?i) < weight ?i" by blast
  from c l r st p(1-3) m n w show ?thesis by blast
qed













section \<open>Claims about the inbound operation\<close>




lemma status_http_Error:
  "status w = None \<Longrightarrow> status (http_Error w msg code) = Some code"
  by (simp add: http_Error_def Write_def WriteHeader_def Header_Set_def)

lemma written_Fprintln:
  "written (foldl Fprintln w ns) = written w @ concat (map (\<lambda>n. Itoa n @ [newline]) ns)"
  by (induction ns arbitrary: w) (simp_all add: Fprintln_def Write_def WriteHeader_def)

lemma status_Fprintln:
  "status w = None \<Longrightarrow> response_status (foldl Fprintln w ns) = 200"
proof (induction ns arbitrary: w rule: rev_induct)
  case Nil
  then show ?case by (simp add: response_status_def)
next
  case (snoc n ns)
  then show ?case
    by (auto simp: Fprintln_def Write_def WriteHeader_def response_status_def split: option.splits)
qed

lemma acquire_True:
  assumes "in_use s < capacity s"
  obtains g where "acquire s = (True, g)" and "in_use g = Suc (in_use s)"
    and "capacity g = capacity s"
  using acquire_free [OF assms] by (cases "acquire s") auto

lemma ServeHTTP_not_POST:
  "Method request \<noteq> ''POST'' \<Longrightarrow>
     ServeHTTP sched h fx writer request =
       Return (h, fx, http_Error writer (StatusText StatusMethodNotAllowed) StatusMethodNotAllowed)"
  by (simp add: ServeHTTP_def)

lemma ServeHTTP_rejected:
  "Method request = ''POST'' \<Longrightarrow> capacity (sem h) \<le> in_use (sem h) \<Longrightarrow>
     ServeHTTP sched h fx writer request =
       Return (h, fx\<lparr>calls := calls fx @ [GateAcquire False]\<rparr>,
         http_Error writer (StatusText StatusServiceUnavailable) StatusServiceUnavailable)"
  by (simp add: ServeHTTP_def acquire_full)

lemma ServeHTTP_unreadable:
  assumes "Method request = ''POST''" and free: "in_use (sem h) < capacity (sem h)"
    and "fault (RequestBody request) = Some err"
  shows "\<exists>g. ServeHTTP sched h fx writer request =
       Return (h\<lparr>sem := g\<rparr>, fx\<lparr>calls := calls fx @ [GateAcquire True, GateRelease]\<rparr>,
         http_Error writer (StatusText StatusBadRequest) StatusBadRequest)
       \<and> in_use g = in_use (sem h) \<and> capacity g = capacity (sem h)"
proof -
  from free obtain g where g: "acquire (sem h) = (True, g)" "in_use g = Suc (in_use (sem h))"
    "capacity g = capacity (sem h)" by (rule acquire_True)
  from release_held [of g] g obtain g' where g': "release g = Some g'"
    "Suc (in_use g') = in_use g" "capacity g' = capacity g" by auto
  from assms g g' show ?thesis
    by (intro exI [of _ g']) (simp add: ServeHTTP_def serve_admitted_def ReadAll_def)
qed

lemma ServeHTTP_served:
  assumes "Method request = ''POST''" and free: "in_use (sem h) < capacity (sem h)"
    and "fault (RequestBody request) = None"
    and c: "client h = Some c" and l: "logger h = Some l"
  shows "\<exists>g g'. acquire (sem h) = (True, g)
       \<and> ServeHTTP sched h fx writer request =
           Return (h\<lparr>sem := g'\<rparr>,
             fx\<lparr>lines := lines fx @ printed (run sched (fetch (h\<lparr>sem := g\<rparr>)
                     (Split (content (RequestBody request)) newline))),
                calls := calls fx @ [GateAcquire True,
                     EngineFetch (Split (content (RequestBody request)) newline), GateRelease]\<rparr>,
             foldl Fprintln (Header_Add ''Content-Type'' ''text/plain'' writer)
               (received (run sched (fetch (h\<lparr>sem := g\<rparr>)
                     (Split (content (RequestBody request)) newline)))))
       \<and> in_use g' = in_use (sem h) \<and> capacity g' = capacity (sem h)"
proof -
  from free obtain g where g: "acquire (sem h) = (True, g)" "in_use g = Suc (in_use (sem h))"
    "capacity g = capacity (sem h)" by (rule acquire_True)
  from release_held [of g] g obtain g' where g': "release g = Some g'"
    "Suc (in_use g') = in_use g" "capacity g' = capacity g" by auto
  let ?f = "run sched (fetch (h\<lparr>sem := g\<rparr>) (Split (content (RequestBody request)) newline))"
  have "client (h\<lparr>sem := g\<rparr>) = Some c" "logger (h\<lparr>sem := g\<rparr>) = Some l"
    using c l by simp_all
  from run_drained(1,2) [OF this, of sched "Split (content (RequestBody request)) newline"]
  have d: "\<not> crashed ?f" "consumer ?f = Finished" .
  from assms g g' d show ?thesis
    by (intro exI [of _ g] exI [of _ g'])
       (simp add: ServeHTTP_def serve_admitted_def ReadAll_def Let_def)
qed

text \<open>
  C3, as stated, fails: the gate is asked before the payload is read. A POST whose body
  cannot be read, sent to a handler whose gate of capacity 1 is taken, is answered 503
  (service unavailable), not 400; sent to a handler whose gate is free, it is answered 400
  after a successful acquire, followed by the release.
\<close>

theorem unreadable_payload_counterexample:
  "ServeHTTP [] (demo_handler 1 1) no_effects fresh_writer
     \<lparr>Method = ''POST'', RequestBody = Stream [] (Some ''unexpected EOF'')\<rparr>
   = Return (demo_handler 1 1, \<lparr>lines = [], calls = [GateAcquire False]\<rparr>,
       \<lparr>status = Some 503,
        header = [(''Content-Type'', ''text/plain; charset=utf-8''),
                  (''X-Content-Type-Options'', ''nosniff'')],
        written = ''Service Unavailable'' @ [newline]\<rparr>)
   \<and> ServeHTTP [] (demo_handler 1 0) no_effects fresh_writer
     \<lparr>Method = ''POST'', RequestBody = Stream [] (Some ''unexpected EOF'')\<rparr>
   = Return (demo_handler 1 0, \<lparr>lines = [], calls = [GateAcquire True, GateRelease]\<rparr>,
       \<lparr>status = Some 400,
        header = [(''Content-Type'', ''text/plain; charset=utf-8''),
                  (''X-Content-Type-Options'', ''nosniff'')],
        written = ''Bad Request'' @ [newline]\<rparr>)"
  by (simp add: ServeHTTP_def serve_admitted_def ReadAll_def acquire_def release_def
      select_send_def recv_def demo_handler_def no_effects_def fresh_writer_def
      http_Error_def Write_def WriteHeader_def Header_Set_def StatusText_def
      StatusServiceUnavailable_def StatusBadRequest_def)

text \<open>
  C3, amended. For every POST whose payload cannot be read, the operation returns; it
  first asks the gate. When a slot is free the answer is 400 (bad request), after one
  acquire and one release; when the gate is saturated the answer is 503. In both cases the
  engine is not called, no line is logged, and the slots in use are as before.
\<close>

theorem unreadable_payload_rejected:
  assumes "Method request = ''POST''" and "fault (RequestBody request) = Some err"
    and "status writer = None"
  shows "\<exists>h' fx' writer'.
       ServeHTTP sched h fx writer request = Return (h', fx', writer')
       \<and> lines fx' = lines fx
       \<and> calls fx' = calls fx @ (if in_use (sem h) < capacity (sem h)
                                 then [GateAcquire True, GateRelease] else [GateAcquire False])
       \<and> response_status writer' = (if in_use (sem h) < capacity (sem h) then 400 else 503)
       \<and> in_use (sem h') = in_use (sem h)"
proof (cases "in_use (sem h) < capacity (sem h)")
  case True
  from ServeHTTP_unreadable [OF assms(1) True assms(2), of sched fx writer] assms(3) True
  show ?thesis
    by (auto simp: response_status_def status_http_Error StatusBadRequest_def)
next
  case False
  then have "capacity (sem h) \<le> in_use (sem h)" by simp
  from ServeHTTP_rejected [OF assms(1) this, of sched fx writer] assms(3) False
  show ?thesis
    by (simp add: response_status_def status_http_Error StatusServiceUnavailable_def)
qed

theorem unreadable_payload_rejected_witness:
  "Method \<lparr>Method = ''POST'', RequestBody = Stream [] (Some ''unexpected EOF'')\<rparr> = ''POST''
   \<and> fault (RequestBody \<lparr>Method = ''POST'', RequestBody = Stream [] (Some ''unexpected EOF'')\<rparr>)
       = Some ''unexpected EOF''
   \<and> status fresh_writer = None
   \<and> (\<exists>h' fx' writer'.
         ServeHTTP [] (demo_handler 1 0) no_effects fresh_writer
           \<lparr>Method = ''POST'', RequestBody = Stream [] (Some ''unexpected EOF'')\<rparr>
           = Return (h', fx', writer')
         \<and> lines fx' = [] \<and> calls fx' = [GateAcquire True, GateRelease]
         \<and> response_status writer' = 400 \<and> in_use (sem h') = 0)"
proof -
  let ?r = "\<lparr>Method = ''POST'', RequestBody = Stream [] (Some ''unexpected EOF'')\<rparr>"
  have a: "Method ?r = ''POST''" "fault (RequestBody ?r) = Some ''unexpected EOF''"
    "status fresh_writer = None"
    by (simp_all add: fresh_writer_def)
  have g: "in_use (sem (demo_handler 1 0)) = 0" "capacity (sem (demo_handler 1 0)) = 1"
    by (simp_all add: demo_handler_def in_use_def capacity_def)
  from unreadable_payload_rejected [OF a, of "[]" "demo_handler 1 0" no_effects] g a
  show ?thesis by (simp add: no_effects_def)
qed

text \<open>
  C5. For every POST handled by a handler with a client and a logger, under every
  scheduler, the operation returns, and its status is 503 when the gate is saturated, 400
  when the request is admitted and its payload cannot be read, and 200 otherwise: no
  failure of a fetch changes the status. For an admitted batch of N URLs, M of which fail
  to fetch, the body gets exactly N - M lines, the decimal sizes of the fetches that
  succeed (in some order), and the handler's logger prints exactly the M errors.
\<close>

theorem batch_partial_failure:
  assumes c: "client h = Some c" and l: "logger h = Some l"
    and post: "Method request = ''POST''" and fresh: "status writer = None"
  shows "\<exists>h' fx' writer'.
       ServeHTTP sched h fx writer request = Return (h', fx', writer')
       \<and> response_status writer' =
           (if capacity (sem h) \<le> in_use (sem h) then 503
            else if fault (RequestBody request) \<noteq> None then 400 else 200)
       \<and> (in_use (sem h) < capacity (sem h) \<and> fault (RequestBody request) = None \<longrightarrow>
            (\<exists>ns. mset ns = mset (sizes c (Split (content (RequestBody request)) newline))
               \<and> length ns + length (failures c (Split (content (RequestBody request)) newline))
                   = length (Split (content (RequestBody request)) newline)
               \<and> written writer' = written writer @ concat (map (\<lambda>n. Itoa n @ [newline]) ns)
               \<and> mset (lines fx') = mset (lines fx)
                   + mset (map (Pair l)
                       (failures c (Split (content (RequestBody request)) newline)))))"
proof (cases "in_use (sem h) < capacity (sem h)")
  case False
  then have "capacity (sem h) \<le> in_use (sem h)" by simp
  from ServeHTTP_rejected [OF post this, of sched fx writer] fresh False
  show ?thesis
    by (simp add: response_status_def status_http_Error StatusServiceUnavailable_def)
next
  case True
  show ?thesis
  proof (cases "fault (RequestBody request)")
    case (Some err)
    from ServeHTTP_unreadable [OF post True Some, of sched fx writer] fresh True Some
    show ?thesis
      by (auto simp: response_status_def status_http_Error StatusBadRequest_def)
  next
    case None
    let ?urls = "Split (content (RequestBody request)) newline"
    from ServeHTTP_served [OF post True None c l, of sched fx writer]
    obtain g g' where
      s: "ServeHTTP sched h fx writer request =
           Return (h\<lparr>sem := g'\<rparr>,
             fx\<lparr>lines := lines fx @ printed (run sched (fetch (h\<lparr>sem := g\<rparr>) ?urls)),
                calls := calls fx @ [GateAcquire True, EngineFetch ?urls, GateRelease]\<rparr>,
             foldl Fprintln (Header_Add ''Content-Type'' ''text/plain'' writer)
               (received (run sched (fetch (h\<lparr>sem := g\<rparr>) ?urls))))"
      by blast
    let ?f = "run sched (fetch (h\<lparr>sem := g\<rparr>) ?urls)"
    have "client (h\<lparr>sem := g\<rparr>) = Some c" "logger (h\<lparr>sem := g\<rparr>) = Some l"
      using c l by simp_all
    from run_drained(6,7) [OF this, of sched ?urls]
    have d: "mset (received ?f) = mset (sizes c ?urls)"
      "mset (printed ?f) = mset (map (Pair l) (failures c ?urls))" .
    from d(1) have "length (received ?f) = length (sizes c ?urls)" by (rule mset_eq_length)
    with sizes_failures_length [of c ?urls]
    have n: "length (received ?f) + length (failures c ?urls) = length ?urls" by simp
    have st: "response_status (foldl Fprintln (Header_Add ''Content-Type'' ''text/plain'' writer)
        (received ?f)) = 200"
      using fresh by (simp add: status_Fprintln Header_Add_def)
    have w: "written (foldl Fprintln (Header_Add ''Content-Type'' ''text/plain'' writer)
        (received ?f)) = written writer @ concat (map (\<lambda>n. Itoa n @ [newline]) (received ?f))"
      by (simp add: written_Fprintln Header_Add_def)
    let ?fx' = "fx\<lparr>lines := lines fx @ printed ?f,
                calls := calls fx @ [GateAcquire True, EngineFetch ?urls, GateRelease]\<rparr>"
    let ?w' = "foldl Fprintln (Header_Add ''Content-Type'' ''text/plain'' writer) (received ?f)"
    have inner: "\<exists>ns. mset ns = mset (sizes c ?urls)
               \<and> length ns + length (failures c ?urls) = length ?urls
               \<and> written ?w' = written writer @ concat (map (\<lambda>n. Itoa n @ [newline]) ns)
               \<and> mset (lines ?fx') = mset (lines fx) + mset (map (Pair l) (failures c ?urls))"
      using d n w by (intro exI [of _ "received ?f"]) simp
    from s st inner True None show ?thesis
      by (intro exI [of _ "h\<lparr>sem := g'\<rparr>"] exI [of _ ?fx'] exI [of _ ?w']) simp
  qed
qed

lemma demo_request_urls: "Split (content (RequestBody demo_request)) newline = [''a'', '''']"
  by (simp add: demo_request_def newline_def)

lemma demo_sizes:
  "sizes demo_client [''a'', ''''] = [3]"
  "failures demo_client [''a'', ''''] = [''unsupported protocol scheme'']"
  by (simp_all add: sizes_def failures_def outcome_def demo_client_def ReadAll_def
      numeral_3_eq_3)

lemma demo_handler_fields:
  "client (demo_handler k n) = Some demo_client" "logger (demo_handler k n) = Some demo_logger"
  "in_use (sem (demo_handler k n)) = n" "capacity (sem (demo_handler k n)) = k"
  by (simp_all add: demo_handler_def in_use_def capacity_def)

theorem batch_partial_failure_witness:
  "client (demo_handler 1 0) = Some demo_client \<and> logger (demo_handler 1 0) = Some demo_logger
   \<and> Method demo_request = ''POST'' \<and> status fresh_writer = None
   \<and> in_use (sem (demo_handler 1 0)) < capacity (sem (demo_handler 1 0))
   \<and> fault (RequestBody demo_request) = None
   \<and> (\<exists>h' fx' writer'.
         ServeHTTP [1, 0, 2] (demo_handler 1 0) no_effects fresh_writer demo_request
           = Return (h', fx', writer')
         \<and> response_status writer' = 200
         \<and> written writer' = Itoa 3 @ [newline]
         \<and> lines fx' = [(demo_logger, ''unsupported protocol scheme'')])"
proof -
  have a: "Method demo_request = ''POST''" "status fresh_writer = None"
    "fault (RequestBody demo_request) = None"
    by (simp_all add: demo_request_def fresh_writer_def)
  have b: "written fresh_writer = []" "lines no_effects = []"
    by (simp_all add: fresh_writer_def no_effects_def)
  have c: "client (demo_handler 1 0) = Some demo_client"
    and l: "logger (demo_handler 1 0) = Some demo_logger"
    by (rule demo_handler_fields)+
  from batch_partial_failure [OF c l a(1,2), where sched = "[1, 0, 2]" and fx = no_effects]
  show ?thesis
    by (simp add: demo_handler_fields a b demo_request_urls demo_sizes)
qed

text \<open>
  C6. Every call of the operation returns with as many slots in use as before. Its calls
  to the gate are: none for a method other than POST; one failed acquire when the gate is
  saturated; one successful acquire and one release when the payload cannot be read; one
  successful acquire, the engine, one release otherwise. So release is called once on
  every path that acquired, and never on the others.
\<close>

theorem gate_released_once:
  assumes c: "client h = Some c" and l: "logger h = Some l"
  shows "\<exists>h' fx' writer' new.
       ServeHTTP sched h fx writer request = Return (h', fx', writer')
       \<and> calls fx' = calls fx @ new
       \<and> new = (if Method request \<noteq> ''POST'' then []
                else if capacity (sem h) \<le> in_use (sem h) then [GateAcquire False]
                else if fault (RequestBody request) \<noteq> None then [GateAcquire True, GateRelease]
                else [GateAcquire True,
                      EngineFetch (Split (content (RequestBody request)) newline), GateRelease])
       \<and> length (filter (\<lambda>e. e = GateRelease) new)
           = (if Method request = ''POST'' \<and> in_use (sem h) < capacity (sem h) then 1 else 0)
       \<and> in_use (sem h') = in_use (sem h) \<and> capacity (sem h') = capacity (sem h)"
proof -
  consider (other) "Method request \<noteq> ''POST''"
    | (full) "Method request = ''POST''" "capacity (sem h) \<le> in_use (sem h)"
    | (bad) err where "Method request = ''POST''" "in_use (sem h) < capacity (sem h)"
        "fault (RequestBody request) = Some err"
    | (ok) "Method request = ''POST''" "in_use (sem h) < capacity (sem h)"
        "fault (RequestBody request) = None"
    by (cases "fault (RequestBody request)") force+
  then show ?thesis
  proof cases
    case other
    with ServeHTTP_not_POST [OF other, of sched h fx writer] show ?thesis by simp
  next
    case full
    with ServeHTTP_rejected [OF full, of sched fx writer] show ?thesis by simp
  next
    case bad
    from ServeHTTP_unreadable [OF bad, of sched fx writer] bad show ?thesis by auto
  next
    case ok
    from ServeHTTP_served [OF ok c l, of sched fx writer] ok show ?thesis by auto
  qed
qed

theorem gate_released_once_witness:
  "client (demo_handler 1 0) = Some demo_client \<and> logger (demo_handler 1 0) = Some demo_logger
   \<and> (\<exists>h' fx' writer'.
         ServeHTTP [] (demo_handler 1 0) no_effects fresh_writer demo_request
           = Return (h', fx', writer')
         \<and> calls fx' = [GateAcquire True, EngineFetch [''a'', ''''], GateRelease]
         \<and> in_use (sem h') = 0 \<and> capacity (sem h') = 1)"
proof -
  have a: "Method demo_request = ''POST''" "fault (RequestBody demo_request) = None"
    "calls no_effects = []"
    by (simp_all add: demo_request_def no_effects_def)
  have c: "client (demo_handler 1 0) = Some demo_client"
    and l: "logger (demo_handler 1 0) = Some demo_logger"
    by (rule demo_handler_fields)+
  from gate_released_once [OF c l, where sched = "[]" and fx = no_effects
      and writer = fresh_writer and request = demo_request]
  show ?thesis
    by (simp add: demo_handler_fields a demo_request_urls) blast
qed





end
